theory Spec2Isabelle
  imports Main "HOL-Library.Word"
begin

section \<open>Zero values\<close>

text \<open>
  Go gives every type a zero value: \<^verbatim>\<open>*new(T)\<close> in \<^verbatim>\<open>empty[T].Value\<close>, the
  result \<^verbatim>\<open>w\<close> of a failed type assertion \<^verbatim>\<open>w, ok = v.(T)\<close>, the elements of
  \<^verbatim>\<open>make([]T, n)\<close>. The class \<open>default\<close> of HOL stands for it: \<open>False\<close> for
  \<^verbatim>\<open>bool\<close>, \<open>0\<close> for \<^verbatim>\<open>int64\<close>, the empty text for \<^verbatim>\<open>string\<close>, the nil
  slice (modelled as the empty list) for \<^verbatim>\<open>[]T\<close> and the nil map (modelled as
  the map with no key: reading a nil map finds nothing) for \<^verbatim>\<open>map[string]any\<close>.
\<close>

instantiation bool :: default
begin
definition default_bool_def: "default = False"
instance ..
end

instantiation list :: (type) default
begin
definition default_list_def: "default = []"
instance ..
end

instantiation option :: (type) default
begin
definition default_option_def: "default = None"
instance ..
end

instantiation "fun" :: (type, default) default
begin
definition default_fun_def: "default = (\<lambda>_. default)"
instance ..
end

instantiation word :: (len) default
begin
definition default_word_def: "default = (0 :: 'a word)"
instance ..
end

section \<open>float64 and its conversions\<close>

text \<open>
  A \<^verbatim>\<open>float64\<close> is an IEEE 754 binary64 datum: a finite number
  \<open>(-1)^s * m * 2^e\<close> with \<open>m < 2^53\<close> and \<open>-1074 \<le> e \<le> 971\<close>, an infinity, or
  a NaN. One number may have several triples (\<open>42 = 42 * 2^0 = 21 * 2^1\<close>); Go's
  \<^verbatim>\<open>==\<close> on floats compares numbers, and so does \<open>float64_eq\<close> below.
\<close>

datatype float64 = Finite bool nat int | Infinity bool | NaN

definition float64_valid :: "float64 \<Rightarrow> bool" where
  "float64_valid x =
     (case x of Finite s m e \<Rightarrow> m < 2 ^ 53 \<and> - 1074 \<le> e \<and> e \<le> 971 | _ \<Rightarrow> True)"

instantiation float64 :: default
begin
definition default_float64_def: "default = Finite False 0 0"
instance ..
end

text \<open>Go's \<^verbatim>\<open>==\<close> on \<^verbatim>\<open>float64\<close>: NaN equals nothing, \<open>-0 = +0\<close>.\<close>

definition float64_eq :: "float64 \<Rightarrow> float64 \<Rightarrow> bool" where
  "float64_eq x y =
     (case (x, y) of
        (Finite s m e, Finite s' m' e') \<Rightarrow>
          (m = 0 \<and> m' = 0) \<or>
          (s = s' \<and> int m * 2 ^ nat (e - min e e') = int m' * 2 ^ nat (e' - min e e'))
      | (Infinity s, Infinity s') \<Rightarrow> s = s'
      | _ \<Rightarrow> False)"

text \<open>The fraction of a finite float is discarded (truncation towards zero).\<close>

definition truncate :: "bool \<Rightarrow> nat \<Rightarrow> int \<Rightarrow> int" where
  "truncate s m e =
     (let a = (if 0 \<le> e then int m * 2 ^ nat e else int m div 2 ^ nat (- e))
      in if s then - a else a)"

text \<open>
  The conversion \<^verbatim>\<open>int64(v)\<close>. Where the truncated number is no \<^verbatim>\<open>int64\<close>
  (also for an infinity and a NaN) the Go specification leaves the result to the
  implementation: it is the parameter \<open>oor\<close>.
\<close>

definition int64_of_float64 :: "(float64 \<Rightarrow> 64 word) \<Rightarrow> float64 \<Rightarrow> 64 word" where
  "int64_of_float64 oor v =
     (case v of
        Finite s m e \<Rightarrow>
          (let t = truncate s m e
           in if - (2 ^ 63) \<le> t \<and> t < 2 ^ 63 then word_of_int t else oor v)
      | _ \<Rightarrow> oor v)"

fun bit_length :: "nat \<Rightarrow> nat" where
  "bit_length n = (if n = 0 then 0 else Suc (bit_length (n div 2)))"

declare bit_length.simps [simp del]

text \<open>
  The conversion \<^verbatim>\<open>float64(w)\<close> of an \<^verbatim>\<open>int64\<close>: exact below \<open>2^53\<close>, and
  rounded to the nearest number of 53 bits, ties to the even one, above.
\<close>

definition round_float64 :: "bool \<Rightarrow> nat \<Rightarrow> float64" where
  "round_float64 s a =
     (let k = bit_length a - 53
      in if k = 0 then Finite s a 0
         else
           (let q = a div 2 ^ k; r = a mod 2 ^ k; h = 2 ^ (k - 1);
                q' = (if h < r \<or> (r = h \<and> odd q) then q + 1 else q)
            in if q' = 2 ^ 53 then Finite s (2 ^ 52) (int k + 1)
               else Finite s q' (int k)))"

definition float64_of_int64 :: "64 word \<Rightarrow> float64" where
  "float64_of_int64 w = (let i = sint w in round_float64 (i < 0) (nat \<bar>i\<bar>))"

section \<open>Dynamic values\<close>

text \<open>
  What an \<^verbatim>\<open>any\<close> of a decoded JSON document holds: nil, a \<^verbatim>\<open>bool\<close>, a
  \<^verbatim>\<open>float64\<close>, a \<^verbatim>\<open>string\<close>, a \<^verbatim>\<open>[]any\<close> or a \<^verbatim>\<open>map[string]any\<close>.
  \<open>AnyObject\<close> is a map stored under the named type \<^verbatim>\<open>Object\<close>, as
  \<^verbatim>\<open>ValueNode[any](o)\<close> in \<^verbatim>\<open>Get\<close> stores it: a type assertion to
  \<^verbatim>\<open>map[string]any\<close> asks for that very dynamic type and fails on it.
\<close>

datatype any =
    AnyNil
  | AnyBool bool
  | AnyFloat64 float64
  | AnyString string
  | AnySlice "any list"
  | AnyMap "string \<rightharpoonup> any"
  | AnyObject "string \<rightharpoonup> any"

instantiation any :: default
begin
definition default_any_def: "default = AnyNil"
instance ..
end

type_synonym Object = "string \<rightharpoonup> any"

section \<open>Mappers\<close>

text \<open>\<^verbatim>\<open>type Mapper[S any, T any] func(v S) (w T, ok bool)\<close>\<close>

type_synonym ('s, 't) Mapper = "'s \<Rightarrow> 't \<times> bool"

definition AsArray :: "(any, any list) Mapper" where
  "AsArray v = (case v of AnySlice xs \<Rightarrow> (xs, True) | _ \<Rightarrow> (default, False))"

definition AsBool :: "(any, bool) Mapper" where
  "AsBool v = (case v of AnyBool b \<Rightarrow> (b, True) | _ \<Rightarrow> (default, False))"

definition AsFloat :: "(any, float64) Mapper" where
  "AsFloat v = (case v of AnyFloat64 f \<Rightarrow> (f, True) | _ \<Rightarrow> (default, False))"

definition AsInt :: "(float64 \<Rightarrow> 64 word) \<Rightarrow> (float64, 64 word) Mapper" where
  "AsInt oor v = (let w = int64_of_float64 oor v in (w, float64_eq v (float64_of_int64 w)))"

definition AsObject :: "(any, Object) Mapper" where
  "AsObject v = (case v of AnyMap m \<Rightarrow> (m, True) | _ \<Rightarrow> (default, False))"

definition AsString :: "(any, string) Mapper" where
  "AsString v = (case v of AnyString s \<Rightarrow> (s, True) | _ \<Rightarrow> (default, False))"

text \<open>
  \<^verbatim>\<open>All\<close>: the loop over \<^verbatim>\<open>range v\<close>, with the index \<open>i\<close> and the slice
  \<open>w\<close> made of \<open>len(v)\<close> zero values. A failing element returns \<^verbatim>\<open>nil, false\<close>.
\<close>

function All_loop :: "('s, 't) Mapper \<Rightarrow> 's list \<Rightarrow> nat \<Rightarrow> 't list \<Rightarrow> 't list \<times> bool" where
  "All_loop m v i w =
     (if i < length v then
        (case m (v ! i) of
           (y, True) \<Rightarrow> All_loop m v (i + 1) (w[i := y])
         | (y, False) \<Rightarrow> ([], False))
      else (w, True))"
  by pat_completeness auto
termination
  by (relation "measure (\<lambda>(m, v, i, w). length v - i)") auto

declare All_loop.simps [simp del]

definition All_Mapper :: "('s, 't::default) Mapper \<Rightarrow> ('s list, 't list) Mapper" where
  "All_Mapper m v = All_loop m v 0 (replicate (length v) default)"

text \<open>
  \<^verbatim>\<open>One\<close>: the named results \<open>(w, ok)\<close> start as the zero value and \<open>false\<close>;
  each mapper overwrites them, and the loop breaks at the first \<open>ok\<close>.
\<close>

fun One_loop :: "('s, 't) Mapper list \<Rightarrow> 's \<Rightarrow> 't \<times> bool \<Rightarrow> 't \<times> bool" where
  "One_loop [] v r = r"
| "One_loop (m # ms) v r = (let r' = m v in if snd r' then r' else One_loop ms v r')"

definition One :: "('s, 't::default) Mapper list \<Rightarrow> ('s, 't) Mapper" where
  "One mappers v = One_loop mappers v (default, False)"

section \<open>Nodes\<close>

text \<open>
  The interface \<^verbatim>\<open>Node[T]\<close> has the two implementations \<^verbatim>\<open>empty[T]\<close> and
  \<^verbatim>\<open>value[T]\<close>, made by \<^verbatim>\<open>EmptyNode\<close> and \<^verbatim>\<open>ValueNode\<close>. A node is one
  of the two; the nil interface, on which a method call panics, is none. Mappers
  and suppliers are functions that return.
\<close>

datatype 't Node = EmptyNode | ValueNode 't

primrec Value :: "'t::default Node \<Rightarrow> 't" where
  "Value EmptyNode = default"
| "Value (ValueNode v) = v"

primrec Empty :: "'t Node \<Rightarrow> bool" where
  "Empty EmptyNode = True"
| "Empty (ValueNode v) = False"

primrec Or :: "'t Node \<Rightarrow> 't \<Rightarrow> 't" where
  "Or EmptyNode d = d"
| "Or (ValueNode v) d = v"

text \<open>
  The supplier of \<^verbatim>\<open>OrGet\<close> is a Go closure \<^verbatim>\<open>func() T\<close>, which may read and
  write what it captured: a function from the captured state to a result and the
  state after the call.
\<close>

primrec OrGet :: "'t Node \<Rightarrow> ('e \<Rightarrow> 't \<times> 'e) \<Rightarrow> 'e \<Rightarrow> 't \<times> 'e" where
  "OrGet EmptyNode f env = f env"
| "OrGet (ValueNode v) f env = (v, env)"

definition Map :: "'s::default Node \<Rightarrow> ('s, 't) Mapper \<Rightarrow> 't Node" where
  "Map n m =
     (if \<not> Empty n then
        (case m (Value n) of (v, True) \<Rightarrow> ValueNode v | (v, False) \<Rightarrow> EmptyNode)
      else EmptyNode)"

section \<open>Objects\<close>

definition get :: "Object \<Rightarrow> string \<Rightarrow> any Node" where
  "get o' k = (case o' k of Some v \<Rightarrow> ValueNode v | None \<Rightarrow> EmptyNode)"

text \<open>
  The loop of \<^verbatim>\<open>Get\<close> for two keys or more, on its variables \<open>n\<close> and \<open>i\<close>.
  After a \<^verbatim>\<open>break\<close> the node is empty, and its \<^verbatim>\<open>Value()\<close> is the nil map.
\<close>

function Get_loop :: "string list \<Rightarrow> Object Node \<Rightarrow> nat \<Rightarrow> Object Node \<times> nat" where
  "Get_loop keys n i =
     (if i < length keys - 1 then
        (let n' = Map (get (Value n) (keys ! i)) AsObject
         in if Empty n' then (n', i) else Get_loop keys n' (i + 1))
      else (n, i))"
  by pat_completeness auto
termination
  by (relation "measure (\<lambda>(keys, n, i). length keys - 1 - i)") auto

declare Get_loop.simps [simp del]

definition Get :: "Object \<Rightarrow> string list \<Rightarrow> any Node" where
  "Get o' keys =
     (case length keys of
        0 \<Rightarrow> ValueNode (AnyObject o')
      | Suc 0 \<Rightarrow> get o' (keys ! 0)
      | _ \<Rightarrow> (case Get_loop keys (ValueNode o') 0 of (n, i) \<Rightarrow> get (Value n) (keys ! i)))"

subsection \<open>Basic type getters\<close>

definition GetArray :: "Object \<Rightarrow> string list \<Rightarrow> any list Node" where
  "GetArray o' keys = Map (Get o' keys) AsArray"

definition GetBool :: "Object \<Rightarrow> string list \<Rightarrow> bool Node" where
  "GetBool o' keys = Map (Get o' keys) AsBool"

definition GetFloat :: "Object \<Rightarrow> string list \<Rightarrow> float64 Node" where
  "GetFloat o' keys = Map (Get o' keys) AsFloat"

definition GetInt :: "(float64 \<Rightarrow> 64 word) \<Rightarrow> Object \<Rightarrow> string list \<Rightarrow> 64 word Node" where
  "GetInt oor o' keys = Map (GetFloat o' keys) (AsInt oor)"

definition GetObject :: "Object \<Rightarrow> string list \<Rightarrow> Object Node" where
  "GetObject o' keys = Map (Get o' keys) AsObject"

definition GetString :: "Object \<Rightarrow> string list \<Rightarrow> string Node" where
  "GetString o' keys = Map (Get o' keys) AsString"

subsection \<open>Array type getters\<close>

definition GetArrays :: "Object \<Rightarrow> string list \<Rightarrow> any list list Node" where
  "GetArrays o' keys = Map (GetArray o' keys) (All_Mapper AsArray)"

definition GetBools :: "Object \<Rightarrow> string list \<Rightarrow> bool list Node" where
  "GetBools o' keys = Map (GetArray o' keys) (All_Mapper AsBool)"

definition GetFloats :: "Object \<Rightarrow> string list \<Rightarrow> float64 list Node" where
  "GetFloats o' keys = Map (GetArray o' keys) (All_Mapper AsFloat)"

definition GetInts :: "(float64 \<Rightarrow> 64 word) \<Rightarrow> Object \<Rightarrow> string list \<Rightarrow> 64 word list Node" where
  "GetInts oor o' keys = Map (GetFloats o' keys) (All_Mapper (AsInt oor))"

definition GetObjects :: "Object \<Rightarrow> string list \<Rightarrow> Object list Node" where
  "GetObjects o' keys = Map (GetArray o' keys) (All_Mapper AsObject)"

definition GetStrings :: "Object \<Rightarrow> string list \<Rightarrow> string list Node" where
  "GetStrings o' keys = Map (GetArray o' keys) (All_Mapper AsString)"

section \<open>Objects as references\<close>

text \<open>
  A Go map is a reference: \<^verbatim>\<open>Set\<close> and \<^verbatim>\<open>Remove\<close> write through the receiver,
  and a nested \<^verbatim>\<open>map[string]any\<close> is shared, not copied. For what a call does to
  the object it is made on, the maps live in a store, an \<^verbatim>\<open>any\<close> holds the
  address of a map (or none, for the nil map), and every method takes the store
  and returns it with its result. Mappers and \<^verbatim>\<open>Map\<close> work on the value they
  are given and are as above.
\<close>

type_synonym addr = nat

datatype cell =
    CNil
  | CBool bool
  | CFloat64 float64
  | CString string
  | CSlice "cell list"
  | CMap "addr option"
  | CObject "addr option"

instantiation cell :: default
begin
definition default_cell_def: "default = CNil"
instance ..
end

type_synonym store = "addr \<Rightarrow> (string \<rightharpoonup> cell)"

definition AsArray_s :: "(cell, cell list) Mapper" where
  "AsArray_s v = (case v of CSlice xs \<Rightarrow> (xs, True) | _ \<Rightarrow> (default, False))"

definition AsBool_s :: "(cell, bool) Mapper" where
  "AsBool_s v = (case v of CBool b \<Rightarrow> (b, True) | _ \<Rightarrow> (default, False))"

definition AsFloat_s :: "(cell, float64) Mapper" where
  "AsFloat_s v = (case v of CFloat64 f \<Rightarrow> (f, True) | _ \<Rightarrow> (default, False))"

definition AsObject_s :: "(cell, addr option) Mapper" where
  "AsObject_s v = (case v of CMap m \<Rightarrow> (m, True) | _ \<Rightarrow> (default, False))"

definition AsString_s :: "(cell, string) Mapper" where
  "AsString_s v = (case v of CString s \<Rightarrow> (s, True) | _ \<Rightarrow> (default, False))"

definition get_s :: "addr option \<Rightarrow> string \<Rightarrow> store \<Rightarrow> cell Node \<times> store" where
  "get_s o' k \<sigma> =
     (case o' of
        None \<Rightarrow> (EmptyNode, \<sigma>)
      | Some a \<Rightarrow> (case \<sigma> a k of Some v \<Rightarrow> (ValueNode v, \<sigma>) | None \<Rightarrow> (EmptyNode, \<sigma>)))"

function Get_loop_s ::
  "string list \<Rightarrow> addr option Node \<Rightarrow> nat \<Rightarrow> store \<Rightarrow> (addr option Node \<times> nat) \<times> store" where
  "Get_loop_s keys n i \<sigma> =
     (if i < length keys - 1 then
        (case get_s (Value n) (keys ! i) \<sigma> of
           (r, \<sigma>') \<Rightarrow>
             (let n' = Map r AsObject_s
              in if Empty n' then ((n', i), \<sigma>') else Get_loop_s keys n' (i + 1) \<sigma>'))
      else ((n, i), \<sigma>))"
  by pat_completeness auto
termination
  by (relation "measure (\<lambda>(keys, n, i, \<sigma>). length keys - 1 - i)") auto

declare Get_loop_s.simps [simp del]

definition Get_s :: "addr option \<Rightarrow> string list \<Rightarrow> store \<Rightarrow> cell Node \<times> store" where
  "Get_s o' keys \<sigma> =
     (case length keys of
        0 \<Rightarrow> (ValueNode (CObject o'), \<sigma>)
      | Suc 0 \<Rightarrow> get_s o' (keys ! 0) \<sigma>
      | _ \<Rightarrow>
          (case Get_loop_s keys (ValueNode o') 0 \<sigma> of
             ((n, i), \<sigma>') \<Rightarrow> get_s (Value n) (keys ! i) \<sigma>'))"

definition Has_s :: "addr option \<Rightarrow> string \<Rightarrow> store \<Rightarrow> bool \<times> store" where
  "Has_s o' k \<sigma> = ((case o' of None \<Rightarrow> False | Some a \<Rightarrow> \<sigma> a k \<noteq> None), \<sigma>)"

text \<open>
  \<^verbatim>\<open>o[k] = v\<close> on a nil map panics (\<open>None\<close>); \<^verbatim>\<open>delete(o, k)\<close> on a nil map
  does nothing.
\<close>

definition Set_s :: "addr option \<Rightarrow> string \<Rightarrow> cell \<Rightarrow> store \<Rightarrow> store option" where
  "Set_s o' k v \<sigma> =
     (case o' of None \<Rightarrow> None | Some a \<Rightarrow> Some (\<sigma>(a := (\<sigma> a)(k \<mapsto> v))))"

definition Remove_s :: "addr option \<Rightarrow> string \<Rightarrow> store \<Rightarrow> store" where
  "Remove_s o' k \<sigma> = (case o' of None \<Rightarrow> \<sigma> | Some a \<Rightarrow> \<sigma>(a := (\<sigma> a)(k := None)))"

definition GetArray_s :: "addr option \<Rightarrow> string list \<Rightarrow> store \<Rightarrow> cell list Node \<times> store" where
  "GetArray_s o' keys \<sigma> = (case Get_s o' keys \<sigma> of (n, \<sigma>') \<Rightarrow> (Map n AsArray_s, \<sigma>'))"

definition GetBool_s :: "addr option \<Rightarrow> string list \<Rightarrow> store \<Rightarrow> bool Node \<times> store" where
  "GetBool_s o' keys \<sigma> = (case Get_s o' keys \<sigma> of (n, \<sigma>') \<Rightarrow> (Map n AsBool_s, \<sigma>'))"

definition GetFloat_s :: "addr option \<Rightarrow> string list \<Rightarrow> store \<Rightarrow> float64 Node \<times> store" where
  "GetFloat_s o' keys \<sigma> = (case Get_s o' keys \<sigma> of (n, \<sigma>') \<Rightarrow> (Map n AsFloat_s, \<sigma>'))"

definition GetInt_s ::
  "(float64 \<Rightarrow> 64 word) \<Rightarrow> addr option \<Rightarrow> string list \<Rightarrow> store \<Rightarrow> 64 word Node \<times> store" where
  "GetInt_s oor o' keys \<sigma> =
     (case GetFloat_s o' keys \<sigma> of (n, \<sigma>') \<Rightarrow> (Map n (AsInt oor), \<sigma>'))"

definition GetObject_s :: "addr option \<Rightarrow> string list \<Rightarrow> store \<Rightarrow> addr option Node \<times> store" where
  "GetObject_s o' keys \<sigma> = (case Get_s o' keys \<sigma> of (n, \<sigma>') \<Rightarrow> (Map n AsObject_s, \<sigma>'))"

definition GetString_s :: "addr option \<Rightarrow> string list \<Rightarrow> store \<Rightarrow> string Node \<times> store" where
  "GetString_s o' keys \<sigma> = (case Get_s o' keys \<sigma> of (n, \<sigma>') \<Rightarrow> (Map n AsString_s, \<sigma>'))"

definition GetArrays_s ::
  "addr option \<Rightarrow> string list \<Rightarrow> store \<Rightarrow> cell list list Node \<times> store" where
  "GetArrays_s o' keys \<sigma> =
     (case GetArray_s o' keys \<sigma> of (n, \<sigma>') \<Rightarrow> (Map n (All_Mapper AsArray_s), \<sigma>'))"

definition GetBools_s :: "addr option \<Rightarrow> string list \<Rightarrow> store \<Rightarrow> bool list Node \<times> store" where
  "GetBools_s o' keys \<sigma> =
     (case GetArray_s o' keys \<sigma> of (n, \<sigma>') \<Rightarrow> (Map n (All_Mapper AsBool_s), \<sigma>'))"

definition GetFloats_s ::
  "addr option \<Rightarrow> string list \<Rightarrow> store \<Rightarrow> float64 list Node \<times> store" where
  "GetFloats_s o' keys \<sigma> =
     (case GetArray_s o' keys \<sigma> of (n, \<sigma>') \<Rightarrow> (Map n (All_Mapper AsFloat_s), \<sigma>'))"

definition GetInts_s ::
  "(float64 \<Rightarrow> 64 word) \<Rightarrow> addr option \<Rightarrow> string list \<Rightarrow> store \<Rightarrow> 64 word list Node \<times> store" where
  "GetInts_s oor o' keys \<sigma> =
     (case GetFloats_s o' keys \<sigma> of (n, \<sigma>') \<Rightarrow> (Map n (All_Mapper (AsInt oor)), \<sigma>'))"

definition GetObjects_s ::
  "addr option \<Rightarrow> string list \<Rightarrow> store \<Rightarrow> addr option list Node \<times> store" where
  "GetObjects_s o' keys \<sigma> =
     (case GetArray_s o' keys \<sigma> of (n, \<sigma>') \<Rightarrow> (Map n (All_Mapper AsObject_s), \<sigma>'))"

definition GetStrings_s ::
  "addr option \<Rightarrow> string list \<Rightarrow> store \<Rightarrow> string list Node \<times> store" where
  "GetStrings_s o' keys \<sigma> =
     (case GetArray_s o' keys \<sigma> of (n, \<sigma>') \<Rightarrow> (Map n (All_Mapper AsString_s), \<sigma>'))"

section \<open>The specification's notions\<close>

text \<open>
  The walk of the specification: every key of \<open>ks\<close> is looked up in turn, and each
  value found must coerce to a mapping, in which the walk goes on.
\<close>

fun descend :: "Object \<Rightarrow> string list \<Rightarrow> Object option" where
  "descend t [] = Some t"
| "descend t (k # ks) =
     (case t k of
        None \<Rightarrow> None
      | Some v \<Rightarrow> (case AsObject v of (m, True) \<Rightarrow> descend m ks | (m, False) \<Rightarrow> None))"

text \<open>
  Step \<open>i\<close> of a traversal fails: the keys before it led to a mapping, and there
  key \<open>i\<close> is absent, or it is not the last key and its value does not coerce to a
  mapping.
\<close>

definition step_fails :: "Object \<Rightarrow> string list \<Rightarrow> nat \<Rightarrow> bool" where
  "step_fails t keys i =
     (case descend t (take i keys) of
        None \<Rightarrow> False
      | Some m \<Rightarrow>
          (case m (keys ! i) of
             None \<Rightarrow> True
           | Some v \<Rightarrow> Suc i < length keys \<and> \<not> snd (AsObject v)))"

text \<open>
  The value reachable at the end of the keys: the tree itself for no key, and
  otherwise what the last key holds in the mapping the keys before it lead to.
\<close>

definition reached :: "Object \<Rightarrow> string list \<Rightarrow> any option" where
  "reached t keys =
     (if keys = [] then Some (AnyObject t)
      else (case descend t (butlast keys) of None \<Rightarrow> None | Some m \<Rightarrow> m (last keys)))"

text \<open>The traversal as a recursion on the keys.\<close>

fun traverse :: "Object \<Rightarrow> string list \<Rightarrow> any Node" where
  "traverse t [] = ValueNode (AnyObject t)"
| "traverse t [k] = get t k"
| "traverse t (k # ks) =
     (case Map (get t k) AsObject of EmptyNode \<Rightarrow> EmptyNode | ValueNode m \<Rightarrow> traverse m ks)"

text \<open>
  The element coercion of the integral array accessor, \<open>toT\<close> for integral
  numbers: a number, then an integral one.
\<close>

definition AsFloatInt :: "(float64 \<Rightarrow> 64 word) \<Rightarrow> (any, 64 word) Mapper" where
  "AsFloatInt oor v = (case AsFloat v of (f, True) \<Rightarrow> AsInt oor f | (f, False) \<Rightarrow> (default, False))"

section \<open>The store and the tree\<close>

text \<open>
  A store represents a tree: a cell and a dynamic value have the same shape, and
  the map at an address holds, key by key, cells that represent the values of the
  mapping. The nil map represents the mapping with no key.
\<close>

definition lookup :: "store \<Rightarrow> addr option \<Rightarrow> string \<Rightarrow> cell option" where
  "lookup \<sigma> o' k = (case o' of None \<Rightarrow> None | Some a \<Rightarrow> \<sigma> a k)"

inductive repr :: "store \<Rightarrow> cell \<Rightarrow> any \<Rightarrow> bool" for \<sigma> :: store where
  repr_nil: "repr \<sigma> CNil AnyNil"
| repr_bool: "repr \<sigma> (CBool b) (AnyBool b)"
| repr_float: "repr \<sigma> (CFloat64 f) (AnyFloat64 f)"
| repr_string: "repr \<sigma> (CString s) (AnyString s)"
| repr_slice: "list_all2 (repr \<sigma>) cs vs \<Longrightarrow> repr \<sigma> (CSlice cs) (AnySlice vs)"
| repr_map: "(\<And>k. rel_option (repr \<sigma>) (lookup \<sigma> a k) (m k)) \<Longrightarrow> repr \<sigma> (CMap a) (AnyMap m)"
| repr_object:
    "(\<And>k. rel_option (repr \<sigma>) (lookup \<sigma> a k) (m k)) \<Longrightarrow> repr \<sigma> (CObject a) (AnyObject m)"

definition tree_of :: "store \<Rightarrow> addr option \<Rightarrow> Object \<Rightarrow> bool" where
  "tree_of \<sigma> o' t = (\<forall>k. rel_option (repr \<sigma>) (lookup \<sigma> o' k) (t k))"

section \<open>Traversal\<close>

text \<open>
  C8. \<^verbatim>\<open>Get\<close> called with no key returns, for every object, a node that is not
  empty and holds the object itself.
\<close>

theorem Get_no_keys:
  "Get o' [] = ValueNode (AnyObject o') \<and> \<not> Empty (Get o' []) \<and> Value (Get o' []) = AnyObject o'"
  by (simp add: Get_def)

text \<open>
  C10. A key that is present with the value null gives a node that is not empty and
  holds null: for one key, the node is empty exactly when the key is absent.
\<close>

theorem Get_null_value:
  "(o' k = Some AnyNil \<longrightarrow> Get o' [k] = ValueNode AnyNil \<and> \<not> Empty (Get o' [k])) \<and>
   (Empty (Get o' [k]) \<longleftrightarrow> o' k = None)"
  by (simp add: Get_def get_def split: option.split)

theorem Get_null_value_witness:
  "[''a'' \<mapsto> AnyNil] ''a'' = Some AnyNil \<and>
   Get [''a'' \<mapsto> AnyNil] [''a''] = ValueNode AnyNil \<and>
   \<not> Empty (Get [''a'' \<mapsto> AnyNil] [''a''])"
  using Get_null_value [of "[''a'' \<mapsto> AnyNil]" "''a''"] by simp

subsection \<open>The loop of Get is the recursive traversal\<close>

lemma get_nil [simp]: "get default k = EmptyNode"
  by (simp add: get_def default_fun_def default_option_def)

lemma Empty_iff: "Empty n \<longleftrightarrow> n = EmptyNode"
  by (cases n) simp_all

lemma Get_loop_traverse:
  "i < length keys \<Longrightarrow>
   (case Get_loop keys (ValueNode m) i of (n, j) \<Rightarrow> get (Value n) (keys ! j)) =
   traverse m (drop i keys)"
proof (induction "length keys - 1 - i" arbitrary: i m)
  case 0
  then have i: "i = length keys - 1" by simp
  with 0 have "drop i keys = [keys ! i]"
    by (metis Cons_nth_drop_Suc Suc_diff_1 drop_all length_greater_0_conv less_nat_zero_code list.size(3) order_refl)
  then show ?case using i by (subst Get_loop.simps) simp
next
  case (Suc d)
  then have lt: "i < length keys - 1" by simp
  then have dr: "drop i keys = keys ! i # keys ! (i + 1) # drop (i + 2) keys"
    by (simp add: Cons_nth_drop_Suc)
  show ?case
  proof (cases "Map (get m (keys ! i)) AsObject")
    case EmptyNode
    then show ?thesis using lt dr by (simp add: Get_loop.simps [of keys _ i])
  next
    case (ValueNode m')
    have "d = length keys - 1 - (i + 1)" using Suc.hyps(2) by simp
    moreover have "i + 1 < length keys" using lt by simp
    ultimately have "(case Get_loop keys (ValueNode m') (i + 1) of (n, j) \<Rightarrow> get (Value n) (keys ! j)) =
      traverse m' (drop (i + 1) keys)" by (rule Suc.hyps(1))
    moreover have "drop (i + 1) keys = keys ! (i + 1) # drop (i + 2) keys"
      using lt by (simp add: Cons_nth_drop_Suc)
    then have "traverse m (drop i keys) = traverse m' (drop (i + 1) keys)"
      using dr ValueNode by simp
    moreover have "Get_loop keys (ValueNode m) i = Get_loop keys (ValueNode m') (i + 1)"
      using lt ValueNode by (subst Get_loop.simps) simp
    ultimately show ?thesis by simp
  qed
qed

lemma Get_traverse: "Get t keys = traverse t keys"
proof (cases keys)
  case Nil
  then show ?thesis by (simp add: Get_def)
next
  case (Cons k ks)
  show ?thesis
  proof (cases ks)
    case Nil
    with Cons show ?thesis by (simp add: Get_def)
  next
    case (Cons k' ks')
    with \<open>keys = k # ks\<close> have "0 < length keys" by simp
    from Get_loop_traverse [OF this, of t] show ?thesis
      using Cons \<open>keys = k # ks\<close> by (simp add: Get_def)
  qed
qed

lemma Map_get_AsObject:
  "Map (get t k) AsObject =
     (case t k of Some (AnyMap m) \<Rightarrow> ValueNode m | _ \<Rightarrow> EmptyNode)"
  by (simp add: Map_def get_def AsObject_def split: option.split any.split)

lemma ex_less_Suc: "(\<exists>i<Suc n. P i) \<longleftrightarrow> P 0 \<or> (\<exists>i<n. P (Suc i))"
  by (metis less_Suc_eq_0_disj)

lemma traverse_empty_iff:
  "traverse t keys = EmptyNode \<longleftrightarrow> (\<exists>i<length keys. step_fails t keys i)"
proof (induction t keys rule: traverse.induct)
  case (1 t)
  then show ?case by simp
next
  case (2 t k)
  then show ?case by (simp add: step_fails_def get_def split: option.split)
next
  case (3 t k k' ks)
  show ?case
  proof (cases "Map (get t k) AsObject")
    case EmptyNode
    then have "step_fails t (k # k' # ks) 0"
      by (auto simp: step_fails_def Map_get_AsObject AsObject_def split: option.splits any.splits)
    then show ?thesis using EmptyNode by auto
  next
    case (ValueNode m)
    then have tk: "t k = Some (AnyMap m)"
      by (auto simp: Map_get_AsObject split: option.splits any.splits)
    then have 0: "\<not> step_fails t (k # k' # ks) 0"
      by (simp add: step_fails_def AsObject_def)
    have S: "step_fails t (k # k' # ks) (Suc i) = step_fails m (k' # ks) i" for i
      using tk by (simp add: step_fails_def AsObject_def split: option.split)
    have "traverse t (k # k' # ks) = traverse m (k' # ks)" using ValueNode by simp
    also have "\<dots> = EmptyNode \<longleftrightarrow> (\<exists>i<length (k' # ks). step_fails m (k' # ks) i)"
      using 3 ValueNode by simp
    also have "\<dots> \<longleftrightarrow> (\<exists>i<Suc (length (k' # ks)). step_fails t (k # k' # ks) i)"
      unfolding ex_less_Suc [of "length (k' # ks)"] using 0 S by simp
    also have "Suc (length (k' # ks)) = length (k # k' # ks)" by simp
    finally show ?thesis .
  qed
qed

lemma traverse_value:
  "traverse t keys = ValueNode v \<Longrightarrow> reached t keys = Some v"
proof (induction t keys rule: traverse.induct)
  case (1 t)
  then show ?case by (simp add: reached_def)
next
  case (2 t k)
  then show ?case by (simp add: reached_def get_def split: option.splits)
next
  case (3 t k k' ks)
  then obtain m where tk: "t k = Some (AnyMap m)" and tr: "traverse m (k' # ks) = ValueNode v"
    by (auto simp: Map_get_AsObject split: option.splits any.splits Node.splits)
  then have "Map (get t k) AsObject = ValueNode m" by (simp add: Map_get_AsObject)
  from 3(1) [OF this tr] show ?case using tk
    by (simp add: reached_def AsObject_def split: if_splits option.splits)
qed

text \<open>
  C1. For every object and every list of keys, \<^verbatim>\<open>Get\<close> returns an empty node if
  and only if some step of the traversal fails (a key is absent, or the value of a
  key that is not the last one does not coerce to a mapping); when no step fails,
  the node holds the value reachable at the end of the keys.
\<close>

theorem Get_empty_iff_step_fails:
  "(Empty (Get t keys) \<longleftrightarrow> (\<exists>i<length keys. step_fails t keys i)) \<and>
   ((\<exists>i<length keys. step_fails t keys i) \<longrightarrow> Get t keys = EmptyNode) \<and>
   (\<not> (\<exists>i<length keys. step_fails t keys i) \<longrightarrow>
      (\<exists>v. reached t keys = Some v \<and> Get t keys = ValueNode v))"
proof -
  have "\<exists>v. reached t keys = Some v \<and> traverse t keys = ValueNode v"
    if "traverse t keys \<noteq> EmptyNode"
    using that traverse_value [of t keys] by (cases "traverse t keys") auto
  then show ?thesis
    using traverse_empty_iff [of t keys] by (auto simp: Get_traverse Empty_iff)
qed

text \<open>
  The tree \<^verbatim>\<open>{"foo": {"bar": "baz"}}\<close>: the keys foo, bar, baz fail at step 1 (the
  text "baz" is no mapping), the keys foo, bar reach "baz".
\<close>

theorem Get_empty_iff_step_fails_witness:
  "(\<exists>i<length [''foo'', ''bar'', ''baz''].
      step_fails [''foo'' \<mapsto> AnyMap [''bar'' \<mapsto> AnyString ''baz'']] [''foo'', ''bar'', ''baz''] i) \<and>
   Get [''foo'' \<mapsto> AnyMap [''bar'' \<mapsto> AnyString ''baz'']] [''foo'', ''bar'', ''baz''] = EmptyNode \<and>
   \<not> (\<exists>i<length [''foo'', ''bar''].
      step_fails [''foo'' \<mapsto> AnyMap [''bar'' \<mapsto> AnyString ''baz'']] [''foo'', ''bar''] i) \<and>
   Get [''foo'' \<mapsto> AnyMap [''bar'' \<mapsto> AnyString ''baz'']] [''foo'', ''bar''] =
     ValueNode (AnyString ''baz'')"
proof -
  let ?T = "[''foo'' \<mapsto> AnyMap [''bar'' \<mapsto> AnyString ''baz'']]"
  have "step_fails ?T [''foo'', ''bar'', ''baz''] 1"
    by (simp add: step_fails_def AsObject_def)
  then have 1: "\<exists>i<length [''foo'', ''bar'', ''baz'']. step_fails ?T [''foo'', ''bar'', ''baz''] i"
    by (intro exI [of _ 1]) simp
  have n: "\<not> step_fails ?T [''foo'', ''bar''] 0" "\<not> step_fails ?T [''foo'', ''bar''] (Suc 0)"
    by (simp_all add: step_fails_def AsObject_def)
  have 2: "\<not> (\<exists>i<length [''foo'', ''bar'']. step_fails ?T [''foo'', ''bar''] i)"
  proof
    assume "\<exists>i<length [''foo'', ''bar'']. step_fails ?T [''foo'', ''bar''] i"
    then obtain i where "i < Suc (Suc 0)" and f: "step_fails ?T [''foo'', ''bar''] i" by auto
    then have "i = 0 \<or> i = Suc 0" by arith
    with n f show False by blast
  qed
  have 3: "reached ?T [''foo'', ''bar''] = Some (AnyString ''baz'')"
    by (simp add: reached_def AsObject_def)
  show ?thesis
    using 1 2 3 Get_empty_iff_step_fails [of ?T "[''foo'', ''bar'', ''baz'']"]
      Get_empty_iff_step_fails [of ?T "[''foo'', ''bar'']"]
    by auto
qed

section \<open>Lifting a mapper to slices\<close>

lemma All_loop_fail:
  "i \<le> j \<Longrightarrow> j < length v \<Longrightarrow> \<not> snd (m (v ! j)) \<Longrightarrow> All_loop m v i w = ([], False)"
proof (induction m v i w rule: All_loop.induct)
  case (1 m v i w)
  show ?case
  proof (cases "snd (m (v ! i))")
    case False
    then show ?thesis using 1(2,3) by (subst All_loop.simps) (auto split: prod.split bool.split)
  next
    case True
    with 1(2,4) have ne: "i \<noteq> j" by auto
    then have "All_loop m v (i + 1) (w[i := fst (m (v ! i))]) = ([], False)"
      using 1 True by (intro 1(1) [of "fst (m (v ! i))" True]) (auto simp: prod_eq_iff)
    then show ?thesis using True 1(2,3)
      by (subst All_loop.simps) (auto split: prod.split bool.split)
  qed
qed

lemma All_loop_ok:
  "i \<le> length v \<Longrightarrow> length w = length v \<Longrightarrow> \<forall>j. i \<le> j \<and> j < length v \<longrightarrow> snd (m (v ! j)) \<Longrightarrow>
   All_loop m v i w = (take i w @ map (\<lambda>x. fst (m x)) (drop i v), True)"
proof (induction m v i w rule: All_loop.induct)
  case (1 m v i w)
  show ?case
  proof (cases "i < length v")
    case False
    with 1(2,3) show ?thesis by (subst All_loop.simps) simp
  next
    case True
    then have ok: "snd (m (v ! i))" using 1(4) by simp
    let ?y = "fst (m (v ! i))"
    have "All_loop m v (i + 1) (w[i := ?y]) =
      (take (i + 1) (w[i := ?y]) @ map (\<lambda>x. fst (m x)) (drop (i + 1) v), True)"
      using True ok 1(3,4) by (intro 1(1) [of ?y True]) (auto simp: prod_eq_iff)
    moreover have "take (i + 1) (w[i := ?y]) = take i w @ [?y]"
      using True 1(3) by (simp add: take_Suc_conv_app_nth)
    moreover have "drop i v = v ! i # drop (i + 1) v"
      using True by (simp add: Cons_nth_drop_Suc)
    ultimately show ?thesis using True ok
      by (subst All_loop.simps) (auto split: prod.split bool.split)
  qed
qed

lemma All_Mapper_eq:
  "All_Mapper m v =
     (if \<forall>x\<in>set v. snd (m x) then (map (\<lambda>x. fst (m x)) v, True) else ([], False))"
proof (cases "\<forall>x\<in>set v. snd (m x)")
  case True
  then have "\<forall>j. 0 \<le> j \<and> j < length v \<longrightarrow> snd (m (v ! j))" by simp
  from All_loop_ok [OF _ _ this, of "replicate (length v) default"] True
  show ?thesis by (simp add: All_Mapper_def)
next
  case False
  then obtain j where j: "j < length v" "\<not> snd (m (v ! j))"
    by (auto simp: in_set_conv_nth)
  have "All_loop m v 0 (replicate (length v) default) = ([], False)"
    using j by (intro All_loop_fail [of 0 j]) simp_all
  then show ?thesis using False by (simp add: All_Mapper_def)
qed

text \<open>
  C4. For every mapper and every slice, \<^verbatim>\<open>All\<close> succeeds if and only if the
  mapper succeeds on every element, and then returns the results of the elements,
  as many and in the same order; when the mapper fails on an element, wherever it
  stands, \<^verbatim>\<open>All\<close> fails and returns the nil slice, no part of a result.
\<close>

theorem All_every_element:
  "(snd (All_Mapper m v) \<longleftrightarrow> (\<forall>i<length v. snd (m (v ! i)))) \<and>
   ((\<forall>i<length v. snd (m (v ! i))) \<longrightarrow>
      All_Mapper m v = (map (\<lambda>x. fst (m x)) v, True) \<and>
      length (fst (All_Mapper m v)) = length v \<and>
      (\<forall>i<length v. fst (All_Mapper m v) ! i = fst (m (v ! i)))) \<and>
   ((\<exists>i<length v. \<not> snd (m (v ! i))) \<longrightarrow> All_Mapper m v = ([], False))"
  by (auto simp: All_Mapper_eq all_set_conv_all_nth)

theorem All_every_element_witness:
  "All_Mapper AsBool [AnyBool True, AnyBool False] = ([True, False], True) \<and>
   All_Mapper AsBool [AnyBool True, AnyNil, AnyBool False] = ([], False)"
proof -
  have "\<forall>i<length [AnyBool True, AnyBool False]. snd (AsBool ([AnyBool True, AnyBool False] ! i))"
    by (simp add: AsBool_def less_Suc_eq)
  moreover have "\<exists>i<length [AnyBool True, AnyNil, AnyBool False].
      \<not> snd (AsBool ([AnyBool True, AnyNil, AnyBool False] ! i))"
    by (rule exI [of _ 1]) (simp add: AsBool_def)
  ultimately show ?thesis
    using All_every_element [of AsBool "[AnyBool True, AnyBool False]"]
      All_every_element [of AsBool "[AnyBool True, AnyNil, AnyBool False]"]
    by (simp add: AsBool_def)
qed

section \<open>Nodes and mappers\<close>

lemma Map_EmptyNode [simp]: "Map EmptyNode m = EmptyNode"
  by (simp add: Map_def)

lemma Map_ValueNode [simp]:
  "Map (ValueNode v) m = (if snd (m v) then ValueNode (fst (m v)) else EmptyNode)"
  by (simp add: Map_def split: prod.split bool.split)

text \<open>
  C6. \<^verbatim>\<open>Map\<close> returns a node holding the mapper's output exactly when the node
  is not empty and the mapper succeeds on its value; on an empty node, whatever the
  mapper, and on a value the mapper fails on, it returns the empty node. It is a
  total function of the node and the mapper: there is no error result.
\<close>

theorem Map_cases:
  "Map n m = (if \<not> Empty n \<and> snd (m (Value n)) then ValueNode (fst (m (Value n))) else EmptyNode) \<and>
   Map (EmptyNode :: 's::default Node) m = EmptyNode \<and>
   Map (ValueNode v) m = (if snd (m v) then ValueNode (fst (m v)) else EmptyNode)"
  by (simp add: Map_def split: prod.split bool.split)

text \<open>
  C7. \<^verbatim>\<open>Value\<close> returns the value held, and the zero value of the type on an
  empty node; \<^verbatim>\<open>Or\<close> returns the value held, and its argument on an empty node;
  \<^verbatim>\<open>OrGet\<close> returns the value held and leaves what the supplier captured as it
  was (the supplier is not called), and on an empty node it is the supplier's call.
\<close>

theorem Node_operations:
  "Value (ValueNode v) = v \<and> Value (EmptyNode :: 't::default Node) = default \<and>
   Value (EmptyNode :: bool Node) = False \<and> Value (EmptyNode :: 64 word Node) = 0 \<and>
   Value (EmptyNode :: string Node) = [] \<and> Value (EmptyNode :: any Node) = AnyNil \<and>
   Value (EmptyNode :: Object Node) = Map.empty \<and>
   Or (ValueNode v) d = v \<and> Or EmptyNode d = d \<and>
   OrGet (ValueNode v) f env = (v, env) \<and> OrGet EmptyNode f env = f env"
  by (simp add: default_bool_def default_word_def default_list_def default_any_def
      default_fun_def default_option_def)

lemma One_loop_first:
  "i < length ms \<Longrightarrow> snd ((ms ! i) v) \<Longrightarrow> \<forall>j<i. \<not> snd ((ms ! j) v) \<Longrightarrow>
   One_loop ms v r = (ms ! i) v"
proof (induction ms arbitrary: i r)
  case Nil
  then show ?case by simp
next
  case (Cons m ms)
  show ?case
  proof (cases i)
    case 0
    with Cons.prems show ?thesis by simp
  next
    case (Suc i')
    with Cons.prems have "\<not> snd (m v)" by auto
    moreover have "One_loop ms v (m v) = (ms ! i') v"
      using Cons.prems Suc by (intro Cons.IH) auto
    ultimately show ?thesis using Suc by simp
  qed
qed

lemma One_loop_ok:
  "\<not> snd r \<Longrightarrow> snd (One_loop ms v r) \<longleftrightarrow> (\<exists>m\<in>set ms. snd (m v))"
  by (induction ms arbitrary: r) (auto simp: Let_def)

lemma One_loop_all_fail:
  "\<forall>m\<in>set ms. \<not> snd (m v) \<Longrightarrow> One_loop ms v r = (if ms = [] then r else (last ms) v)"
  by (induction ms arbitrary: r) (auto simp: Let_def)

text \<open>
  C5. \<^verbatim>\<open>One\<close> returns the result of the first mapper of the list that succeeds
  on the input, whatever the later ones would return, and it fails if and only if
  every mapper of the list fails on the input.
\<close>

theorem One_first_success:
  "(\<forall>i. i < length ms \<and> snd ((ms ! i) v) \<and> (\<forall>j<i. \<not> snd ((ms ! j) v)) \<longrightarrow>
        One ms v = (ms ! i) v) \<and>
   (\<not> snd (One ms v) \<longleftrightarrow> (\<forall>m\<in>set ms. \<not> snd (m v)))"
  using One_loop_first [of _ ms v] One_loop_ok [of "(default, False)" ms v]
  by (auto simp: One_def)

theorem One_first_success_witness:
  "One [AsBool, (\<lambda>v. (True, snd (AsString v))), (\<lambda>v. (False, True))] (AnyString ''x'') = (True, True) \<and>
   One [(\<lambda>v. (True, snd (AsString v))), (\<lambda>v. (False, True))] (AnyString ''x'') = (True, True) \<and>
   \<not> snd (One [AsBool, (\<lambda>v. (True, snd (AsString v)))] AnyNil)"
proof -
  let ?s = "\<lambda>v. (True, snd (AsString v))"
  let ?t = "\<lambda>v::any. (False, True)"
  have "One [AsBool, ?s, ?t] (AnyString ''x'') = ([AsBool, ?s, ?t] ! 1) (AnyString ''x'')"
    using One_first_success [of "[AsBool, ?s, ?t]" "AnyString ''x''", THEN conjunct1, rule_format, of 1]
    by (simp add: AsBool_def AsString_def)
  moreover have "One [?s, ?t] (AnyString ''x'') = ([?s, ?t] ! 0) (AnyString ''x'')"
    using One_first_success [of "[?s, ?t]" "AnyString ''x''", THEN conjunct1, rule_format, of 0]
    by (simp add: AsString_def)
  moreover have "\<not> snd (One [AsBool, ?s] AnyNil)"
    using One_first_success [of "[AsBool, ?s]" AnyNil]
    by (simp add: AsBool_def AsString_def)
  ultimately show ?thesis by (simp add: AsString_def)
qed

section \<open>Typed getters\<close>

lemma AsFloatInt_ok: "snd (AsFloatInt oor x) \<longleftrightarrow> snd (AsFloat x) \<and> snd (AsInt oor (fst (AsFloat x)))"
  by (simp add: AsFloatInt_def split: prod.split bool.split)

lemma AsFloatInt_value: "snd (AsFloat x) \<Longrightarrow> fst (AsFloatInt oor x) = fst (AsInt oor (fst (AsFloat x)))"
  by (cases "AsFloat x") (auto simp: AsFloatInt_def)

lemma Map_All_AsFloat_AsInt:
  "Map (Map n (All_Mapper AsFloat)) (All_Mapper (AsInt oor)) = Map n (All_Mapper (AsFloatInt oor))"
proof (cases n)
  case EmptyNode
  then show ?thesis by simp
next
  case (ValueNode xs)
  show ?thesis
  proof (cases "\<forall>x\<in>set xs. snd (AsFloat x)")
    case True
    then have "map (\<lambda>x. fst (AsInt oor (fst (AsFloat x)))) xs = map (\<lambda>x. fst (AsFloatInt oor x)) xs"
      by (simp add: AsFloatInt_value)
    then show ?thesis using True ValueNode
      by (simp add: All_Mapper_eq AsFloatInt_ok o_def)
  next
    case False
    then show ?thesis using ValueNode by (auto simp: All_Mapper_eq AsFloatInt_ok)
  qed
qed

text \<open>
  C3. Every typed getter is the composition of the traversal and the coercion:
  a getter of a basic type is \<^verbatim>\<open>Map(Get(keys), AsT)\<close>, \<^verbatim>\<open>GetInt\<close> is the number
  getter followed by the integral coercion, and a getter of an array type is
  \<^verbatim>\<open>Map(Map(Get(keys), AsArray), All(AsT))\<close>, where for \<^verbatim>\<open>GetInts\<close> the element
  coercion is a number, then an integral one.
\<close>

theorem getters_compose:
  "GetBool o' keys = Map (Get o' keys) AsBool \<and>
   GetFloat o' keys = Map (Get o' keys) AsFloat \<and>
   GetString o' keys = Map (Get o' keys) AsString \<and>
   GetArray o' keys = Map (Get o' keys) AsArray \<and>
   GetObject o' keys = Map (Get o' keys) AsObject \<and>
   GetInt oor o' keys = Map (Map (Get o' keys) AsFloat) (AsInt oor) \<and>
   GetInt oor o' keys = Map (GetFloat o' keys) (AsInt oor) \<and>
   GetArrays o' keys = Map (Map (Get o' keys) AsArray) (All_Mapper AsArray) \<and>
   GetBools o' keys = Map (Map (Get o' keys) AsArray) (All_Mapper AsBool) \<and>
   GetFloats o' keys = Map (Map (Get o' keys) AsArray) (All_Mapper AsFloat) \<and>
   GetObjects o' keys = Map (Map (Get o' keys) AsArray) (All_Mapper AsObject) \<and>
   GetStrings o' keys = Map (Map (Get o' keys) AsArray) (All_Mapper AsString) \<and>
   GetInts oor o' keys = Map (Map (Get o' keys) AsArray) (All_Mapper (AsFloatInt oor))"
  by (simp add: GetBool_def GetFloat_def GetString_def GetArray_def GetObject_def GetInt_def
      GetArrays_def GetBools_def GetFloats_def GetObjects_def GetStrings_def GetInts_def
      Map_All_AsFloat_AsInt del: Map_ValueNode Map_EmptyNode)

section \<open>What a getter does to the store\<close>

lemma get_s_store: "snd (get_s o' k \<sigma>) = \<sigma>"
  by (simp add: get_s_def split: option.split)

lemma Get_loop_s_store: "snd (Get_loop_s keys n i \<sigma>) = \<sigma>"
proof (induction keys n i \<sigma> rule: Get_loop_s.induct)
  case (1 keys n i \<sigma>)
  obtain r \<sigma>' where g: "get_s (Value n) (keys ! i) \<sigma> = (r, \<sigma>')" by (cases "get_s (Value n) (keys ! i) \<sigma>")
  then have s: "\<sigma>' = \<sigma>" using get_s_store [of "Value n" "keys ! i" \<sigma>] by simp
  show ?case
  proof (cases "i < length keys - 1 \<and> \<not> Empty (Map r AsObject_s)")
    case True
    then have "snd (Get_loop_s keys (Map r AsObject_s) (i + 1) \<sigma>') = \<sigma>'"
      by (intro 1 [OF _ g [symmetric] refl]) simp_all
    then show ?thesis using True g s by (subst Get_loop_s.simps) (simp add: Let_def)
  next
    case False
    then show ?thesis using g s by (subst Get_loop_s.simps) (auto simp: Let_def)
  qed
qed

lemma Get_s_store: "snd (Get_s o' keys \<sigma>) = \<sigma>"
proof -
  obtain n i \<sigma>' where l: "Get_loop_s keys (ValueNode o') 0 \<sigma> = ((n, i), \<sigma>')"
    by (metis prod.exhaust)
  then have "\<sigma>' = \<sigma>" using Get_loop_s_store [of keys "ValueNode o'" 0 \<sigma>] by simp
  then show ?thesis using l
    by (simp add: Get_s_def get_s_store split: nat.split)
qed

lemma GetArray_s_store: "snd (GetArray_s o' keys \<sigma>) = \<sigma>"
  using Get_s_store [of o' keys \<sigma>] by (auto simp: GetArray_s_def split: prod.split)

lemma GetFloat_s_store: "snd (GetFloat_s o' keys \<sigma>) = \<sigma>"
  using Get_s_store [of o' keys \<sigma>] by (auto simp: GetFloat_s_def split: prod.split)

lemma GetFloats_s_store: "snd (GetFloats_s o' keys \<sigma>) = \<sigma>"
  using GetArray_s_store [of o' keys \<sigma>] by (auto simp: GetFloats_s_def split: prod.split)

text \<open>
  C9. \<^verbatim>\<open>Get\<close> and every typed getter return the store they were given: the
  object they are called on, and every map reachable from it, is after the call
  what it was before. \<^verbatim>\<open>Set\<close> and \<^verbatim>\<open>Remove\<close> do write to the map of their
  receiver.
\<close>

theorem getters_read_only:
  "snd (Get_s o' keys \<sigma>) = \<sigma> \<and>
   snd (GetBool_s o' keys \<sigma>) = \<sigma> \<and>
   snd (GetFloat_s o' keys \<sigma>) = \<sigma> \<and>
   snd (GetInt_s oor o' keys \<sigma>) = \<sigma> \<and>
   snd (GetString_s o' keys \<sigma>) = \<sigma> \<and>
   snd (GetArray_s o' keys \<sigma>) = \<sigma> \<and>
   snd (GetObject_s o' keys \<sigma>) = \<sigma> \<and>
   snd (GetArrays_s o' keys \<sigma>) = \<sigma> \<and>
   snd (GetBools_s o' keys \<sigma>) = \<sigma> \<and>
   snd (GetFloats_s o' keys \<sigma>) = \<sigma> \<and>
   snd (GetInts_s oor o' keys \<sigma>) = \<sigma> \<and>
   snd (GetObjects_s o' keys \<sigma>) = \<sigma> \<and>
   snd (GetStrings_s o' keys \<sigma>) = \<sigma> \<and>
   Set_s (Some a) k v ((\<lambda>_. Map.empty) :: store) \<noteq> Some (\<lambda>_. Map.empty) \<and>
   Remove_s (Some a) k ((\<lambda>_. Map.empty)(a := [k \<mapsto> v])) \<noteq> (\<lambda>_. Map.empty)(a := [k \<mapsto> v])"
proof -
  have "Set_s (Some a) k v ((\<lambda>_. Map.empty) :: store) \<noteq> Some (\<lambda>_. Map.empty)"
    by (auto simp: Set_s_def fun_eq_iff)
  moreover have "Remove_s (Some a) k ((\<lambda>_. Map.empty)(a := [k \<mapsto> v])) \<noteq> (\<lambda>_. Map.empty)(a := [k \<mapsto> v])"
    by (auto simp: Remove_s_def fun_eq_iff)
  ultimately show ?thesis
  using Get_s_store [of o' keys \<sigma>] GetArray_s_store [of o' keys \<sigma>]
    GetFloat_s_store [of o' keys \<sigma>] GetFloats_s_store [of o' keys \<sigma>]
  by (auto simp: GetBool_s_def GetInt_s_def GetString_s_def GetObject_s_def GetArrays_s_def
      GetBools_s_def GetInts_s_def GetObjects_s_def GetStrings_s_def split: prod.split)
qed

text \<open>
  The getter on the store and the getter on the tree agree: on a store that
  represents a tree, \<open>Get_s\<close> returns a cell that represents what \<open>Get\<close> returns.
\<close>

lemma get_s_lookup:
  "get_s o' k \<sigma> = ((case lookup \<sigma> o' k of None \<Rightarrow> EmptyNode | Some v \<Rightarrow> ValueNode v), \<sigma>)"
  by (simp add: get_s_def lookup_def split: option.split)

lemma get_s_repr:
  assumes "tree_of \<sigma> o' t"
  shows "rel_Node (repr \<sigma>) (fst (get_s o' k \<sigma>)) (get t k)"
proof -
  from assms have "rel_option (repr \<sigma>) (lookup \<sigma> o' k) (t k)" by (simp add: tree_of_def)
  then show ?thesis
    by (cases "lookup \<sigma> o' k"; cases "t k") (simp_all add: get_s_lookup get_def)
qed

lemma Map_AsObject_repr:
  assumes "rel_Node (repr \<sigma>) r r'"
  shows "(Map r AsObject_s = EmptyNode \<and> Map r' AsObject = EmptyNode) \<or>
         (\<exists>a m. Map r AsObject_s = ValueNode a \<and> Map r' AsObject = ValueNode m \<and> tree_of \<sigma> a m)"
proof (cases r)
  case EmptyNode
  with assms have "r' = EmptyNode" by (cases r') simp_all
  with EmptyNode show ?thesis by simp
next
  case (ValueNode c)
  with assms obtain v where r': "r' = ValueNode v" and cv: "repr \<sigma> c v" by (cases r') simp_all
  from cv show ?thesis
    by (cases rule: repr.cases)
      (simp_all add: ValueNode r' AsObject_s_def AsObject_def tree_of_def)
qed

lemma tree_of_nil: "tree_of \<sigma> None Map.empty"
  by (simp add: tree_of_def lookup_def)

lemma Get_loop_s_repr:
  "i < length keys \<Longrightarrow> tree_of \<sigma> a m \<Longrightarrow>
   rel_Node (repr \<sigma>)
     (fst (case Get_loop_s keys (ValueNode a) i \<sigma> of ((n, j), \<sigma>') \<Rightarrow> get_s (Value n) (keys ! j) \<sigma>'))
     (traverse m (drop i keys))"
proof (induction "length keys - 1 - i" arbitrary: i a m)
  case 0
  then have i: "i = length keys - 1" by simp
  with 0 have "drop i keys = [keys ! i]"
    by (metis Cons_nth_drop_Suc Suc_diff_1 drop_all length_greater_0_conv less_nat_zero_code list.size(3) order_refl)
  moreover have "Get_loop_s keys (ValueNode a) i \<sigma> = ((ValueNode a, i), \<sigma>)"
    using i by (subst Get_loop_s.simps) simp
  ultimately show ?case using get_s_repr [OF 0(3)] by simp
next
  case (Suc d)
  then have lt: "i < length keys - 1" by simp
  then have dr: "drop i keys = keys ! i # keys ! (i + 1) # drop (i + 2) keys"
    by (simp add: Cons_nth_drop_Suc)
  have dr': "drop (i + 1) keys = keys ! (i + 1) # drop (i + 2) keys"
    using lt by (simp add: Cons_nth_drop_Suc)
  obtain r where g: "get_s a (keys ! i) \<sigma> = (r, \<sigma>)" by (simp add: get_s_lookup)
  have "rel_Node (repr \<sigma>) r (get m (keys ! i))"
    using get_s_repr [OF Suc.prems(2), of "keys ! i"] g by simp
  from Map_AsObject_repr [OF this]
  show ?case
  proof (elim disjE conjE exE)
    assume e: "Map r AsObject_s = EmptyNode" "Map (get m (keys ! i)) AsObject = EmptyNode"
    then have "Get_loop_s keys (ValueNode a) i \<sigma> = ((EmptyNode, i), \<sigma>)"
      using lt g by (subst Get_loop_s.simps) simp
    then show ?thesis using e dr
      by (simp add: get_s_def default_option_def)
  next
    fix a' m'
    assume v: "Map r AsObject_s = ValueNode a'" "Map (get m (keys ! i)) AsObject = ValueNode m'"
      and t: "tree_of \<sigma> a' m'"
    have "Get_loop_s keys (ValueNode a) i \<sigma> = Get_loop_s keys (ValueNode a') (i + 1) \<sigma>"
      using lt g v by (subst Get_loop_s.simps) simp
    moreover have "traverse m (drop i keys) = traverse m' (drop (i + 1) keys)"
      using dr dr' v by simp
    moreover have "d = length keys - 1 - (i + 1)" using Suc.hyps(2) by simp
    moreover have "i + 1 < length keys" using lt by simp
    ultimately show ?thesis using Suc.hyps(1) [of "i + 1" a' m'] t by simp
  qed
qed

lemma Get_s_repr:
  assumes "tree_of \<sigma> o' t"
  shows "rel_Node (repr \<sigma>) (fst (Get_s o' keys \<sigma>)) (Get t keys)"
proof (cases keys)
  case Nil
  then show ?thesis using assms by (simp add: Get_s_def Get_def repr_object tree_of_def)
next
  case (Cons k ks)
  show ?thesis
  proof (cases ks)
    case Nil
    with Cons show ?thesis using get_s_repr [OF assms] by (simp add: Get_s_def Get_def)
  next
    case (Cons k' ks')
    with \<open>keys = k # ks\<close> have "0 < length keys" by simp
    from Get_loop_s_repr [OF this assms] show ?thesis
      using Cons \<open>keys = k # ks\<close> by (simp add: Get_s_def Get_traverse)
  qed
qed

section \<open>The integral coercion\<close>

lemma bit_length_0 [simp]: "bit_length 0 = 0"
  by (simp add: bit_length.simps)

lemma bit_length_Suc_0 [simp]: "bit_length (Suc 0) = Suc 0"
  by (subst bit_length.simps) simp

lemma bit_length_numeral [simp]:
  "bit_length (numeral (Num.Bit0 n)) = Suc (bit_length (numeral n))"
  "bit_length (numeral (Num.Bit1 n)) = Suc (bit_length (numeral n))"
  by (subst bit_length.simps, simp)+

lemma bit_length_pos: "0 < n \<Longrightarrow> bit_length n = Suc (bit_length (n div 2))"
  by (subst bit_length.simps) simp

lemma bit_length_bound: "n < 2 ^ bit_length n"
proof (induction n rule: bit_length.induct)
  case (1 n)
  show ?case
  proof (cases "n = 0")
    case True
    then show ?thesis by simp
  next
    case False
    with 1 have "n div 2 < 2 ^ bit_length (n div 2)" by simp
    then have "n < 2 * 2 ^ bit_length (n div 2)" by linarith
    then show ?thesis using False by (simp add: bit_length_pos)
  qed
qed

lemma bit_length_le: "n < 2 ^ j \<Longrightarrow> bit_length n \<le> j"
proof (induction n arbitrary: j rule: bit_length.induct)
  case (1 n)
  show ?case
  proof (cases "n = 0")
    case True
    then show ?thesis by simp
  next
    case False
    with 1(2) obtain j' where j: "j = Suc j'" by (cases j) auto
    with 1(2) have "n div 2 < 2 ^ j'" by simp
    with 1(1) False have "bit_length (n div 2) \<le> j'" by simp
    then show ?thesis using False j by (simp add: bit_length_pos)
  qed
qed

lemma round_float64_exact:
  assumes m: "m < 2 ^ 53" and a: "a = m * 2 ^ e"
  shows "\<exists>q k. round_float64 s a = Finite s q (int k) \<and> q * 2 ^ k = a"
proof (cases "bit_length a - 53 = 0")
  case True
  then have "round_float64 s a = Finite s a (int 0)" by (simp add: round_float64_def)
  then show ?thesis by (intro exI [of _ a] exI [of _ 0]) simp
next
  case False
  define k where "k = bit_length a - 53"
  have kpos: "0 < k" using False by (simp add: k_def)
  have "a < 2 ^ (53 + e)" using m a by (simp add: power_add)
  then have "bit_length a \<le> 53 + e" by (rule bit_length_le)
  then have ke: "k \<le> e" by (simp add: k_def)
  then have "(2::nat) ^ k dvd 2 ^ e" by (simp add: le_imp_power_dvd)
  then have dvd: "2 ^ k dvd a" using a by simp
  then have r: "a mod 2 ^ k = 0" by simp
  have "a < 2 ^ bit_length a" by (rule bit_length_bound)
  also have "bit_length a = k + 53" using kpos by (simp add: k_def)
  finally have q: "a div 2 ^ k < 2 ^ 53"
    by (simp add: less_mult_imp_div_less power_add mult.commute)
  have h: "\<not> (2::nat) ^ (k - 1) < 0" "(0::nat) \<noteq> 2 ^ (k - 1)" by simp_all
  have "round_float64 s a =
     (let q = a div 2 ^ k; r = a mod 2 ^ k; h = 2 ^ (k - 1);
          q' = (if h < r \<or> (r = h \<and> odd q) then q + 1 else q)
      in if q' = 2 ^ 53 then Finite s (2 ^ 52) (int k + 1) else Finite s q' (int k))"
    using kpos unfolding round_float64_def k_def [symmetric] by (simp add: Let_def)
  also have "\<dots> = Finite s (a div 2 ^ k) (int k)"
    unfolding Let_def r using h q by simp
  finally have "round_float64 s a = Finite s (a div 2 ^ k) (int k)" .
  moreover have "a div 2 ^ k * 2 ^ k = a" using dvd by simp
  ultimately show ?thesis by blast
qed


lemma sint_in_range:
  "- (2 ^ 63) \<le> t \<Longrightarrow> t < 2 ^ 63 \<Longrightarrow> sint (word_of_int t :: 64 word) = t"
  by (simp add: sint_sbintrunc' signed_take_bit_int_eq_self)

lemma float64_eq_Finite:
  "float64_eq (Finite s m e) (Finite s' q k) \<longleftrightarrow>
     (m = 0 \<and> q = 0) \<or>
     (s = s' \<and> int m * 2 ^ nat (e - min e k) = int q * 2 ^ nat (k - min e k))"
  by (simp add: float64_eq_def)

lemma AsInt_in_range:
  assumes m: "m < 2 ^ 53" and lo: "- (2 ^ 63) \<le> truncate s m e" and hi: "truncate s m e < 2 ^ 63"
  shows "AsInt oor (Finite s m e) =
    (word_of_int (truncate s m e), 0 \<le> e \<or> 2 ^ nat (- e) dvd m)"
proof -
  define t where "t = truncate s m e"
  define a where "a = (if 0 \<le> e then m * 2 ^ nat e else m div 2 ^ nat (- e))"
  have t: "t = (if s then - int a else int a)"
    by (simp add: t_def a_def truncate_def zdiv_int)
  have w: "int64_of_float64 oor (Finite s m e) = word_of_int t"
    using lo hi by (simp add: int64_of_float64_def t_def)
  have st: "sint (word_of_int t :: 64 word) = t"
    using lo hi unfolding t_def by (rule sint_in_range)
  have abs: "nat \<bar>t\<bar> = a" by (simp add: t)
  have neg: "t < 0 \<longleftrightarrow> s \<and> 0 < a" by (auto simp: t)
  have "\<exists>m' e'. m' < 2 ^ 53 \<and> a = m' * 2 ^ e'"
  proof (cases "0 \<le> e")
    case True
    then show ?thesis using m a_def by auto
  next
    case False
    then have "a \<le> m" by (simp add: a_def)
    with m have "a < 2 ^ 53" by simp
    then show ?thesis by (intro exI [of _ a] exI [of _ 0]) simp
  qed
  then obtain m' e' where "m' < 2 ^ 53" "a = m' * 2 ^ e'" by blast
  from round_float64_exact [OF this, of "t < 0"]
  obtain q k where r: "round_float64 (t < 0) a = Finite (t < 0) q (int k)" and qk: "q * 2 ^ k = a"
    by blast
  have f: "float64_of_int64 (word_of_int t) = Finite (t < 0) q (int k)"
    by (simp add: float64_of_int64_def st abs r)
  have "float64_eq (Finite s m e) (Finite (t < 0) q (int k)) \<longleftrightarrow> (0 \<le> e \<or> 2 ^ nat (- e) dvd m)"
  proof (cases "0 \<le> e")
    case True
    define mn where "mn = nat (min e (int k))"
    have mn: "nat (e - min e (int k)) + mn = nat e" "nat (int k - min e (int k)) + mn = k"
      using True unfolding mn_def min_def by (cases "e \<le> int k"; simp; linarith)+
    have "m * 2 ^ nat e = q * 2 ^ k" using qk True by (simp add: a_def)
    then have "int (m * 2 ^ nat e) = int (q * 2 ^ k)" by (rule arg_cong)
    then have "int m * 2 ^ nat e = int q * 2 ^ k" by simp
    then have "int m * 2 ^ nat (e - min e (int k)) * 2 ^ mn =
        int q * 2 ^ nat (int k - min e (int k)) * 2 ^ mn"
      by (simp add: mult.assoc flip: power_add add: mn)
    then have eq: "int m * 2 ^ nat (e - min e (int k)) = int q * 2 ^ nat (int k - min e (int k))"
      by simp
    have "m = 0 \<and> q = 0 \<or> s = (t < 0)"
    proof (cases "m = 0")
      case True
      then have "a = 0" using \<open>0 \<le> e\<close> by (simp add: a_def)
      with qk True show ?thesis by simp
    next
      case False
      then have "0 < a" using \<open>0 \<le> e\<close> by (simp add: a_def)
      then show ?thesis by (simp add: neg)
    qed
    then show ?thesis using True eq by (auto simp: float64_eq_Finite)
  next
    case False
    define d :: nat where "d = 2 ^ nat (- e)"
    have a: "a = m div d" using False by (simp add: a_def d_def)
    have mn: "min e (int k) = e" "nat (int k - e) = k + nat (- e)" using False by simp_all
    have "int q * 2 ^ nat (int k - e) = int (a * d)"
      unfolding mn by (simp add: power_add d_def flip: qk)
    then have eq: "float64_eq (Finite s m e) (Finite (t < 0) q (int k)) \<longleftrightarrow>
        (m = 0 \<and> q = 0) \<or> (s = (t < 0) \<and> m = a * d)"
      unfolding float64_eq_Finite mn by (simp del: of_nat_mult)
    show ?thesis
    proof (cases "d dvd m")
      case True
      then have md: "m = a * d" by (simp add: a)
      have "m = 0 \<and> q = 0 \<or> s = (t < 0)"
      proof (cases "m = 0")
        case True
        then have "a = 0" by (simp add: a)
        with qk True show ?thesis by simp
      next
        case False
        with md have "0 < a" by (cases a) auto
        then show ?thesis by (simp add: neg)
      qed
      then show ?thesis using True md eq False by (auto simp: d_def)
    next
      case nd: False
      then have "m \<noteq> a * d" by (metis dvd_triv_right)
      moreover have "m \<noteq> 0" using nd by (metis dvd_0_right)
      ultimately show ?thesis using nd eq False by (simp add: d_def)
    qed
  qed
  then show ?thesis by (simp add: AsInt_def w f t_def [symmetric])
qed

text \<open>
  Beyond the range of \<^verbatim>\<open>int64\<close> the outcome rests on the conversion of the
  implementation. For the float \<open>2^63\<close>, a conversion that saturates gives
  \<open>2^63 - 1\<close>, which converts back to \<open>2^63\<close>: the coercion succeeds with
  \<open>2^63 - 1\<close>. A conversion that gives the least \<^verbatim>\<open>int64\<close> makes it fail.
\<close>

lemma AsInt_out_of_range:
  "AsInt (\<lambda>_. 9223372036854775807) (Finite False 4503599627370496 11) =
     (9223372036854775807, True) \<and>
   AsInt (\<lambda>_. - 9223372036854775808) (Finite False 4503599627370496 11) =
     (- 9223372036854775808, False)"
proof -
  have t: "truncate False 4503599627370496 11 = 9223372036854775808"
    by (simp add: truncate_def)
  have "float64_of_int64 9223372036854775807 = Finite False 4503599627370496 11"
    by (simp add: float64_of_int64_def round_float64_def Let_def)
  moreover have "float64_of_int64 (- 9223372036854775808) = Finite True 4503599627370496 11"
    by (simp add: float64_of_int64_def round_float64_def Let_def)
  ultimately show ?thesis
    by (simp add: AsInt_def int64_of_float64_def t float64_eq_def)
qed

lemma float64_eq_sym: "float64_eq x y = float64_eq y x"
  by (cases x; cases y) (auto simp: float64_eq_def min.commute)

lemma float64_of_int64_Finite: "\<exists>s q k. float64_of_int64 w = Finite s q k"
  by (simp add: float64_of_int64_def round_float64_def Let_def)

lemma AsInt_not_finite: "\<not> snd (AsInt oor NaN) \<and> \<not> snd (AsInt oor (Infinity s))"
proof -
  obtain s' q k where "float64_of_int64 (oor NaN) = Finite s' q k"
    using float64_of_int64_Finite by blast
  moreover obtain s'' q' k' where "float64_of_int64 (oor (Infinity s)) = Finite s'' q' k'"
    using float64_of_int64_Finite by blast
  ultimately show ?thesis
    by (simp add: AsInt_def int64_of_float64_def float64_eq_def)
qed

text \<open>
  C2. For every \<^verbatim>\<open>float64\<close>, \<^verbatim>\<open>AsInt\<close> succeeds if and only if converting the
  number to \<^verbatim>\<open>int64\<close> and back gives a float equal to it, and it yields the
  converted number. For a finite float whose truncation is an \<^verbatim>\<open>int64\<close> this
  number is the truncation, and the coercion succeeds exactly when the float has no
  fractional part; a NaN and an infinity fail. \<open>42.0\<close> (the binary64 number
  \<open>5910974510923776 * 2^-47\<close>) gives 42, \<open>42.01\<close> (\<open>5912381885807329 * 2^-47\<close>)
  fails, and \<open>-7.0\<close> (\<open>-7881299347898368 * 2^-50\<close>) gives -7.
\<close>

theorem AsInt_round_trip:
  "(snd (AsInt oor x) \<longleftrightarrow> float64_eq (float64_of_int64 (int64_of_float64 oor x)) x) \<and>
   fst (AsInt oor x) = int64_of_float64 oor x \<and>
   (\<forall>s m e. x = Finite s m e \<and> float64_valid x \<and>
        - (2 ^ 63) \<le> truncate s m e \<and> truncate s m e < 2 ^ 63 \<longrightarrow>
      sint (fst (AsInt oor x)) = truncate s m e \<and>
      (snd (AsInt oor x) \<longleftrightarrow> 0 \<le> e \<or> 2 ^ nat (- e) dvd m)) \<and>
   \<not> snd (AsInt oor NaN) \<and> \<not> snd (AsInt oor (Infinity b)) \<and>
   AsInt oor (Finite False 5910974510923776 (- 47)) = (42, True) \<and>
   \<not> snd (AsInt oor (Finite False 5912381885807329 (- 47))) \<and>
   AsInt oor (Finite True 7881299347898368 (- 50)) = (- 7, True)"
proof -
  have "snd (AsInt oor x) \<longleftrightarrow> float64_eq (float64_of_int64 (int64_of_float64 oor x)) x"
    by (simp add: AsInt_def Let_def float64_eq_sym)
  moreover have "fst (AsInt oor x) = int64_of_float64 oor x"
    by (simp add: AsInt_def Let_def)
  moreover have "sint (fst (AsInt oor x)) = truncate s m e \<and>
      (snd (AsInt oor x) \<longleftrightarrow> 0 \<le> e \<or> 2 ^ nat (- e) dvd m)"
    if "x = Finite s m e" "float64_valid x" "- (2 ^ 63) \<le> truncate s m e" "truncate s m e < 2 ^ 63"
    for s m e
  proof -
    from that have "m < 2 ^ 53" by (simp add: float64_valid_def)
    from AsInt_in_range [OF this that(3,4), of oor] sint_in_range [OF that(3,4)]
    show ?thesis using that(1) by simp
  qed
  moreover have "AsInt oor (Finite False 5910974510923776 (- 47)) = (42, True)"
    using AsInt_in_range [of 5910974510923776 False "- 47" oor] by (simp add: truncate_def)
  moreover have "\<not> snd (AsInt oor (Finite False 5912381885807329 (- 47)))"
    using AsInt_in_range [of 5912381885807329 False "- 47" oor] by (simp add: truncate_def)
  moreover have "AsInt oor (Finite True 7881299347898368 (- 50)) = (- 7, True)"
    using AsInt_in_range [of 7881299347898368 True "- 50" oor] by (simp add: truncate_def)
  ultimately show ?thesis using AsInt_not_finite [of oor b] by blast
qed

theorem AsInt_round_trip_witness:
  "float64_valid (Finite False 5910974510923776 (- 47)) \<and>
   truncate False 5910974510923776 (- 47) = 42 \<and>
   sint (fst (AsInt (\<lambda>_. - (2 ^ 63)) (Finite False 5910974510923776 (- 47)))) = 42 \<and>
   snd (AsInt (\<lambda>_. - (2 ^ 63)) (Finite False 5910974510923776 (- 47))) \<and>
   float64_valid (Finite False 5912381885807329 (- 47)) \<and>
   truncate False 5912381885807329 (- 47) = 42 \<and>
   sint (fst (AsInt (\<lambda>_. - (2 ^ 63)) (Finite False 5912381885807329 (- 47)))) = 42 \<and>
   \<not> snd (AsInt (\<lambda>_. - (2 ^ 63)) (Finite False 5912381885807329 (- 47)))"
proof -
  have v: "float64_valid (Finite False 5910974510923776 (- 47))"
    "float64_valid (Finite False 5912381885807329 (- 47))"
    by (simp_all add: float64_valid_def)
  have t: "truncate False 5910974510923776 (- 47) = 42" "truncate False 5912381885807329 (- 47) = 42"
    by (simp_all add: truncate_def)
  note r = AsInt_round_trip [THEN conjunct2, THEN conjunct2, THEN conjunct1, rule_format]
  have "sint (fst (AsInt (\<lambda>_. - (2 ^ 63)) (Finite False 5910974510923776 (- 47)))) = 42 \<and>
      snd (AsInt (\<lambda>_. - (2 ^ 63)) (Finite False 5910974510923776 (- 47)))"
    using r [of "Finite False 5910974510923776 (- 47)" False 5910974510923776 "- 47" "\<lambda>_. - (2 ^ 63)"]
      v t by simp
  moreover have "sint (fst (AsInt (\<lambda>_. - (2 ^ 63)) (Finite False 5912381885807329 (- 47)))) = 42 \<and>
      \<not> snd (AsInt (\<lambda>_. - (2 ^ 63)) (Finite False 5912381885807329 (- 47)))"
    using r [of "Finite False 5912381885807329 (- 47)" False 5912381885807329 "- 47" "\<lambda>_. - (2 ^ 63)"]
      v t by simp
  ultimately show ?thesis using v t by simp
qed

end
